theory Spec2Isabelle
  imports Main
begin

section \<open>The hashchain engine (utils/hashchainTools)\<close>

text \<open>
  The engine is the module that begins \<open>import { keccak256 } from 'viem'\<close>. Its functions
  are pure; every one of them is embedded below as a HOL function of the same name.

  Conventions of the embedding:
  \<^item> a hash value is the hexadecimal string the code passes around (\<open>string\<close>);
  \<^item> a JavaScript \<open>number\<close> holding a length, position, token number or loop counter is an
    \<open>int\<close> (all of them stay far inside the range where a double is an exact integer);
  \<^item> \<open>undefined\<close> (an omitted optional argument, an out-of-range array read, an absent
    optional field) is \<open>None\<close>;
  \<^item> \<open>throw new Error(...)\<close> is the left injection of a sum; the three messages of the
    module are the three constructors of \<open>error\<close>, the interpolated number being the
    constructor's argument;
  \<^item> \<open>keccak256\<close> of the viem library is the parameter \<open>H\<close> of every function that hashes,
    and \<open>generateSeed()\<close> of the SDK is the parameter \<open>rnd\<close>, the value that call returns.
\<close>

subsection \<open>Data\<close>

datatype error =
    LengthNotPositive          \<comment> \<open>'Hashchain length must be greater than 0'\<close>
  | PositionOutOfRange int     \<comment> \<open>'Position must be between 1 and N'\<close>
  | TokenOutOfRange int        \<comment> \<open>'Token number must be between 1 and N'\<close>

record HashchainData =
  seed :: string
  trustAnchor :: "string option"
  firstToken :: "string option"
  length_hc :: int
  nodes :: "string list"
  fullChain :: "string list"

record SearchResult =
  found :: bool
  position :: "int option"
  tokens :: "int option"

record Validation =
  isValid :: bool
  errors :: "string list"

subsection \<open>JavaScript primitives used by the module\<close>

text \<open>\<open>xs[i]\<close>: the element, or \<open>undefined\<close> when \<open>i\<close> is not an index of the array.\<close>

definition js_index :: "'a list \<Rightarrow> int \<Rightarrow> 'a option" where
  "js_index xs i = (if 0 \<le> i \<and> i < int (length xs) then Some (xs ! nat i) else None)"

text \<open>\<open>xs.indexOf(x)\<close>: the first index holding \<open>x\<close>, or \<open>-1\<close>.\<close>

fun indexOf_from :: "'a list \<Rightarrow> 'a \<Rightarrow> int \<Rightarrow> int" where
  "indexOf_from [] x i = - 1"
| "indexOf_from (y # ys) x i = (if y = x then i else indexOf_from ys x (i + 1))"

definition indexOf :: "'a list \<Rightarrow> 'a \<Rightarrow> int" where
  "indexOf xs x = indexOf_from xs x 0"

text \<open>\<open>s.startsWith(p)\<close>.\<close>

definition startsWith :: "string \<Rightarrow> string \<Rightarrow> bool" where
  "startsWith s p = (take (length p) s = p)"

text \<open>
  Truthiness of an optional string: \<open>undefined\<close> and the empty string are falsy, every other
  string is truthy.
\<close>

definition truthy :: "string option \<Rightarrow> bool" where
  "truthy so = (case so of None \<Rightarrow> False | Some s \<Rightarrow> s \<noteq> [])"

subsection \<open>Chain construction\<close>

text \<open>
  Modelled from the spec: the function \<open>hashchain(seed, length)\<close> that \<open>generateHashchain\<close>
  imports from the package \<open>@hashchain/sdk\<close> is not among the sources. The spec gives its
  algorithm: build an array of length \<open>length\<close>; index 0 is the seed; for \<open>i\<close> from 1 to
  \<open>length - 1\<close>, \<open>chain[i] = H(chain[i-1])\<close>. The second component of the loop state
  counts the applications of \<open>H\<close>. A length of 0 gives the empty array;
  \<open>generateHashchain\<close> never asks for one.
\<close>

function hashchain_loop ::
  "(string \<Rightarrow> string) \<Rightarrow> nat \<Rightarrow> nat \<Rightarrow> string list \<times> nat \<Rightarrow> string list \<times> nat" where
  "hashchain_loop H i n (chain, applied) =
     (if i < n
      then hashchain_loop H (i + 1) n (chain[i := H (chain ! (i - 1))], applied + 1)
      else (chain, applied))"
  by pat_completeness auto
termination
  by (relation "measure (\<lambda>(H, i, n, s). n - i)") auto

definition hashchain_counted :: "(string \<Rightarrow> string) \<Rightarrow> string \<Rightarrow> nat \<Rightarrow> string list \<times> nat" where
  "hashchain_counted H s n =
     (if n = 0 then ([], 0) else hashchain_loop H 1 n ((replicate n [])[0 := s], 0))"

definition hashchain :: "(string \<Rightarrow> string) \<Rightarrow> string \<Rightarrow> nat \<Rightarrow> string list" where
  "hashchain H s n = fst (hashchain_counted H s n)"

text \<open>
  The generation loop of \<open>scripts/test_generation.js\<close>, which writes the same construction
  out by hand: push the current value, and hash it unless this is the last round. The
  script runs it for 100 rounds (\<open>i < 100\<close>, \<open>i < 99\<close>); here the number of rounds is \<open>n\<close>.
  The state is the current value, the nodes pushed so far and the count of applications.
\<close>

function script_loop ::
  "(string \<Rightarrow> string) \<Rightarrow> int \<Rightarrow> int \<Rightarrow> string \<times> string list \<times> nat \<Rightarrow> string \<times> string list \<times> nat" where
  "script_loop H i n (currentValue, ns, applied) =
     (if i < n
      then (if i < n - 1
            then script_loop H (i + 1) n (H currentValue, ns @ [currentValue], applied + 1)
            else script_loop H (i + 1) n (currentValue, ns @ [currentValue], applied))
      else (currentValue, ns, applied))"
  by pat_completeness auto
termination
  by (relation "measure (\<lambda>(H, i, n, s). nat (n - i))") auto

definition script_nodes :: "(string \<Rightarrow> string) \<Rightarrow> string \<Rightarrow> string list \<times> nat" where
  "script_nodes H s = snd (script_loop H 0 100 (s, [], 0))"

subsection \<open>generateHashchain\<close>

definition generateHashchain ::
  "(string \<Rightarrow> string) \<Rightarrow> string \<Rightarrow> int \<Rightarrow> string option \<Rightarrow> error + HashchainData" where
  "generateHashchain H rnd len seed_opt =
     (if len \<le> 0 then Inl LengthNotPositive
      else
        let s = (if \<not> truthy seed_opt then rnd else the seed_opt);
            hashes = hashchain H s (nat len);
            ft = js_index hashes (int (length hashes) - 2)
        in Inr \<lparr> seed = s,
                 trustAnchor = js_index hashes (int (length hashes) - 1),
                 firstToken = ft,
                 length_hc = int (length hashes),
                 nodes = hashes,
                 fullChain = hashes \<rparr>)"

subsection \<open>Positions and token numbers\<close>

definition getHashByPosition :: "HashchainData \<Rightarrow> int \<Rightarrow> error + string option" where
  "getHashByPosition hc pos =
     (if pos < 1 \<or> pos > length_hc hc then Inl (PositionOutOfRange (length_hc hc))
      else Inr (js_index (fullChain hc) (pos - 1)))"

definition getTokensForPosition :: "int \<Rightarrow> int \<Rightarrow> error + int" where
  "getTokensForPosition pos totalLength =
     (if pos < 1 \<or> pos > totalLength then Inl (PositionOutOfRange totalLength)
      else if pos = totalLength then Inr 0
      else Inr (totalLength - pos))"

definition getPositionForToken :: "int \<Rightarrow> int \<Rightarrow> error + int" where
  "getPositionForToken tokenNumber totalLength =
     (if tokenNumber < 1 \<or> tokenNumber > totalLength - 1 then Inl (TokenOutOfRange (totalLength - 1))
      else Inr (totalLength - tokenNumber))"

subsection \<open>searchHashInHashchain\<close>

definition searchHashInHashchain :: "HashchainData \<Rightarrow> string \<Rightarrow> error + SearchResult" where
  "searchHashInHashchain hc searchHash =
     (let p = indexOf (fullChain hc) searchHash in
      if p = - 1 then Inr \<lparr> found = False, position = None, tokens = None \<rparr>
      else
        let actualPosition = p + 1 in
        case getTokensForPosition actualPosition (length_hc hc) of
          Inl e \<Rightarrow> Inl e
        | Inr t \<Rightarrow> Inr \<lparr> found = True, position = Some actualPosition, tokens = Some t \<rparr>)"

subsection \<open>verifyHashchain and calculateHashesNeeded\<close>

text \<open>
  The \<open>for\<close> loop of \<open>verifyHashchain\<close>; the state is the current value and the count of
  applications of \<open>H\<close>.
\<close>

function verify_loop ::
  "(string \<Rightarrow> string) \<Rightarrow> int \<Rightarrow> int \<Rightarrow> string \<times> nat \<Rightarrow> string \<times> nat" where
  "verify_loop H i numberOfHashes (currentValue, applied) =
     (if i < numberOfHashes
      then verify_loop H (i + 1) numberOfHashes (H currentValue, applied + 1)
      else (currentValue, applied))"
  by pat_completeness auto
termination
  by (relation "measure (\<lambda>(H, i, n, s). nat (n - i))") auto

text \<open>
  The body of \<open>verifyHashchain\<close> has no \<open>throw\<close>: the result is always a boolean. It is
  given the result type of the other entry points so that this can be stated.
\<close>

definition verifyHashchain ::
  "(string \<Rightarrow> string) \<Rightarrow> string \<Rightarrow> string \<Rightarrow> int \<Rightarrow> error + bool" where
  "verifyHashchain H testHash anchor numberOfHashes =
     Inr (fst (verify_loop H 0 numberOfHashes (testHash, 0)) = anchor)"

function hashes_loop ::
  "(string \<Rightarrow> string) \<Rightarrow> string \<Rightarrow> int \<Rightarrow> int \<Rightarrow> string \<Rightarrow> int option" where
  "hashes_loop H anchor i maxHashes currentValue =
     (if i < maxHashes
      then (if H currentValue = anchor then Some (i + 1)
            else hashes_loop H anchor (i + 1) maxHashes (H currentValue))
      else None)"
  by pat_completeness auto
termination
  by (relation "measure (\<lambda>(H, a, i, n, c). nat (n - i))") auto

text \<open>\<open>maxHashes\<close> is optional and defaults to 1000; \<open>null\<close> is \<open>None\<close>.\<close>

definition calculateHashesNeeded ::
  "(string \<Rightarrow> string) \<Rightarrow> string \<Rightarrow> string \<Rightarrow> int option \<Rightarrow> int option" where
  "calculateHashesNeeded H testHash anchor maxHashes_opt =
     hashes_loop H anchor 0 (case maxHashes_opt of None \<Rightarrow> 1000 | Some m \<Rightarrow> m) testHash"

subsection \<open>validateHashchainParams\<close>

definition validateHashchainParams :: "int \<Rightarrow> string option \<Rightarrow> Validation" where
  "validateHashchainParams len seed_opt =
     (let e1 = (if len \<le> 0 then [''Length must be greater than 0''] else []);
          e2 = e1 @ (if len > 10000 then [''Length must be less than or equal to 10000''] else []);
          e3 = e2 @ (if truthy seed_opt \<and> \<not> startsWith (the seed_opt) ''0x''
                     then [''Seed must start with 0x''] else []);
          e4 = e3 @ (if truthy seed_opt \<and> length (the seed_opt) \<noteq> 66
                     then [''Seed must be 32 bytes (0x + 64 hex characters)''] else [])
      in \<lparr> isValid = (length e4 = 0), errors = e4 \<rparr>)"

subsection \<open>Well-formed hash values\<close>

text \<open>
  Modelled from the spec: the module has no predicate for a well-formed HashValue. The
  spec's data model defines one as \<open>0x\<close> followed by exactly 64 hexadecimal characters
  (66 characters in all).
\<close>

definition is_hex_char :: "char \<Rightarrow> bool" where
  "is_hex_char c = (c \<in> set ''0123456789abcdefABCDEF'')"

definition is_HashValue :: "string \<Rightarrow> bool" where
  "is_HashValue s = (length s = 66 \<and> take 2 s = ''0x'' \<and> list_all is_hex_char (drop 2 s))"

subsection \<open>The chain in closed form\<close>

text \<open>
  The list the construction loops are shown to build: the seed, its hash, the hash of that,
  and so on; element \<open>j\<close> is \<open>H\<close> applied \<open>j\<close> times to the seed.
\<close>

definition iterates :: "(string \<Rightarrow> string) \<Rightarrow> string \<Rightarrow> nat \<Rightarrow> string list" where
  "iterates H s n = map (\<lambda>j. (H ^^ j) s) [0..<n]"

subsection \<open>A stand-in hash for concrete instances\<close>

text \<open>
  The theorems below hold for every \<open>H\<close>. Where one is instantiated at a concrete input, the
  hash is this stand-in, which like Keccak-256 on a short chain never returns to a value it
  has left.
\<close>

definition H0 :: "string \<Rightarrow> string" where
  "H0 s = CHR ''h'' # s"

definition seedA :: string where
  "seedA = ''0x'' @ replicate 64 CHR ''a''"

section \<open>Properties of the loops\<close>

text \<open>
  Each loop unfolds to itself, so its defining equation is taken out of the simplifier and
  applied by hand, one round at a time.
\<close>

declare hashchain_loop.simps [simp del] script_loop.simps [simp del]
  verify_loop.simps [simp del] hashes_loop.simps [simp del]

subsection \<open>Chain construction\<close>

text \<open>
  Invariant of the construction loop: on entry to round \<open>i\<close> the array has its final
  length and holds the first \<open>i\<close> iterates; every round applies \<open>H\<close> once.
\<close>

lemma hashchain_loop_inv:
  "length chain = n \<Longrightarrow> 1 \<le> i \<Longrightarrow> i \<le> n \<Longrightarrow> (\<forall>j<i. chain ! j = (H ^^ j) s) \<Longrightarrow>
   hashchain_loop H i n (chain, applied) = (iterates H s n, applied + (n - i))"
proof (induction H i n "(chain, applied)" arbitrary: chain applied rule: hashchain_loop.induct)
  case (1 H i n chain applied)
  show ?case
  proof (cases "i < n")
    case True
    let ?c = "chain[i := H (chain ! (i - 1))]"
    have prev: "chain ! (i - 1) = (H ^^ (i - 1)) s"
      using 1(3,5) by simp
    have "H (chain ! (i - 1)) = (H ^^ i) s"
    proof -
      have "i = Suc (i - 1)" using 1(3) by simp
      then have "(H ^^ i) s = H ((H ^^ (i - 1)) s)"
        by (metis funpow.simps(2) o_apply)
      then show ?thesis using prev by simp
    qed
    then have inv: "\<forall>j<i + 1. ?c ! j = (H ^^ j) s"
      using 1(2,5) True by (auto simp: nth_list_update less_Suc_eq)
    have "hashchain_loop H (i + 1) n (?c, applied + 1) = (iterates H s n, applied + 1 + (n - (i + 1)))"
    proof (rule 1(1) [OF True])
      show "length ?c = n" using 1(2) by simp
      show "1 \<le> i + 1" by simp
      show "i + 1 \<le> n" using True by simp
      show "\<forall>j<i + 1. ?c ! j = (H ^^ j) s" by (rule inv)
    qed
    then show ?thesis
      using True by (subst hashchain_loop.simps) simp
  next
    case False
    then have "i = n" using 1(4) by simp
    then have "chain = iterates H s n"
      using 1(2,5) by (auto simp: iterates_def intro: nth_equalityI)
    then show ?thesis
      using False by (subst hashchain_loop.simps) simp
  qed
qed

lemma hashchain_counted_eq:
  "hashchain_counted H s n = (iterates H s n, n - 1)"
proof (cases "n = 0")
  case True
  then show ?thesis by (simp add: hashchain_counted_def iterates_def)
next
  case False
  have "hashchain_loop H 1 n ((replicate n [])[0 := s], 0) = (iterates H s n, 0 + (n - 1))"
    by (rule hashchain_loop_inv) (use False in auto)
  then show ?thesis using False by (simp add: hashchain_counted_def)
qed

lemma hashchain_eq: "hashchain H s n = iterates H s n"
  by (simp add: hashchain_def hashchain_counted_eq)

lemma length_iterates [simp]: "length (iterates H s n) = n"
  by (simp add: iterates_def)

lemma nth_iterates: "i < n \<Longrightarrow> iterates H s n ! i = (H ^^ i) s"
  by (simp add: iterates_def)

lemma iterates_link: "1 \<le> i \<Longrightarrow> i < n \<Longrightarrow> iterates H s n ! i = H (iterates H s n ! (i - 1))"
proof -
  assume a: "1 \<le> i" "i < n"
  then have "i = Suc (i - 1)" by simp
  then have "(H ^^ i) s = H ((H ^^ (i - 1)) s)" by (metis funpow.simps(2) o_apply)
  then show ?thesis using a by (simp add: nth_iterates)
qed

lemma iterates_funpow:
  "a + m < n \<Longrightarrow> (H ^^ m) (iterates H s n ! a) = iterates H s n ! (a + m)"
proof -
  assume a: "a + m < n"
  have "(H ^^ m) ((H ^^ a) s) = (H ^^ (m + a)) s" by (simp add: funpow_add)
  then show ?thesis using a by (simp add: nth_iterates add.commute)
qed

text \<open>
  The loop of the script builds the same list with the same number of applications: after
  the last push the current value is left as it is.
\<close>

lemma script_loop_inv:
  "1 \<le> n \<Longrightarrow> 0 \<le> i \<Longrightarrow> i \<le> n \<Longrightarrow> cur = (H ^^ nat (min i (n - 1))) s \<Longrightarrow>
   ns = iterates H s (nat i) \<Longrightarrow> applied = nat (min i (n - 1)) \<Longrightarrow>
   script_loop H i n (cur, ns, applied) = ((H ^^ nat (n - 1)) s, iterates H s (nat n), nat (n - 1))"
proof (induction H i n "(cur, ns, applied)" arbitrary: cur ns applied rule: script_loop.induct)
  case (1 H i n cur ns applied)
  show ?case
  proof (cases "i < n")
    case False
    then have "i = n" using 1 by simp
    then show ?thesis using 1 by (subst script_loop.simps) simp
  next
    case True
    have ns': "ns @ [cur] = iterates H s (nat (i + 1))"
    proof -
      have "nat (i + 1) = Suc (nat i)" using 1(4) by simp
      moreover have "cur = (H ^^ nat i) s" using 1(6) True by (simp add: min_def)
      ultimately show ?thesis using 1(7) by (simp add: iterates_def)
    qed
    show ?thesis
    proof (cases "i < n - 1")
      case True
      have m: "nat (min (i + 1) (n - 1)) = Suc (nat (min i (n - 1)))"
        using True 1(4) by (simp add: min_def)
      have "script_loop H (i + 1) n (H cur, ns @ [cur], applied + 1)
          = ((H ^^ nat (n - 1)) s, iterates H s (nat n), nat (n - 1))"
      proof (rule 1(1) [OF \<open>i < n\<close> True])
        show "1 \<le> n" by (rule 1(3))
        show "0 \<le> i + 1" using 1(4) by simp
        show "i + 1 \<le> n" using \<open>i < n\<close> by simp
        show "H cur = (H ^^ nat (min (i + 1) (n - 1))) s" using 1(6) by (simp add: m)
        show "ns @ [cur] = iterates H s (nat (i + 1))" by (rule ns')
        show "applied + 1 = nat (min (i + 1) (n - 1))" using 1(8) by (simp add: m)
      qed
      then show ?thesis using True \<open>i < n\<close> by (subst script_loop.simps) simp
    next
      case False
      have m: "min (i + 1) (n - 1) = min i (n - 1)"
        using False \<open>i < n\<close> by (simp add: min_def)
      have "script_loop H (i + 1) n (cur, ns @ [cur], applied)
          = ((H ^^ nat (n - 1)) s, iterates H s (nat n), nat (n - 1))"
      proof (rule 1(2) [OF \<open>i < n\<close> False])
        show "1 \<le> n" by (rule 1(3))
        show "0 \<le> i + 1" using 1(4) by simp
        show "i + 1 \<le> n" using \<open>i < n\<close> by simp
        show "cur = (H ^^ nat (min (i + 1) (n - 1))) s" using 1(6) by (simp only: m)
        show "ns @ [cur] = iterates H s (nat (i + 1))" by (rule ns')
        show "applied = nat (min (i + 1) (n - 1))" using 1(8) by (simp only: m)
      qed
      then show ?thesis using False \<open>i < n\<close> by (subst script_loop.simps) simp
    qed
  qed
qed

lemma script_nodes_eq: "script_nodes H s = hashchain_counted H s 100"
proof -
  have "script_loop H 0 100 (s, [], 0) = ((H ^^ nat (100 - 1)) s, iterates H s (nat 100), nat (100 - 1))"
    by (rule script_loop_inv) (simp_all add: iterates_def)
  then show ?thesis by (simp add: script_nodes_def hashchain_counted_eq)
qed

subsection \<open>generateHashchain in closed form\<close>

lemma generateHashchain_Inr:
  assumes "0 < len"
  shows "generateHashchain H rnd len so =
     (let s = (if \<not> truthy so then rnd else the so); c = iterates H s (nat len) in
      Inr \<lparr> seed = s,
             trustAnchor = Some ((H ^^ (nat len - 1)) s),
             firstToken = (if len = 1 then None else Some ((H ^^ (nat len - 2)) s)),
             length_hc = len, nodes = c, fullChain = c \<rparr>)"
proof -
  define s where "s = (if \<not> truthy so then rnd else the so)"
  define c where "c = iterates H s (nat len)"
  have n: "int (length c) = len"
    using assms by (simp add: c_def)
  have ta: "js_index c (len - 1) = Some ((H ^^ (nat len - 1)) s)"
    using assms by (simp add: js_index_def c_def nth_iterates nat_diff_distrib)
  have ft: "js_index c (len - 2) = (if len = 1 then None else Some ((H ^^ (nat len - 2)) s))"
    using assms by (simp add: js_index_def c_def nth_iterates nat_diff_distrib)
  have "generateHashchain H rnd len so =
      Inr \<lparr> seed = s, trustAnchor = js_index c (len - 1), firstToken = js_index c (len - 2),
             length_hc = len, nodes = c, fullChain = c \<rparr>"
    using assms n by (simp add: generateHashchain_def hashchain_eq Let_def s_def [symmetric] c_def [symmetric])
  then show ?thesis
    by (simp add: ta ft Let_def s_def [symmetric] c_def [symmetric])
qed

lemma generateHashchain_fullChain:
  assumes "generateHashchain H rnd L so = Inr d"
  shows "0 < L \<and> fullChain d = iterates H (if truthy so then the so else rnd) (nat L)"
proof -
  have pos: "0 < L"
    using assms by (cases "L \<le> 0") (simp_all add: generateHashchain_def)
  then show ?thesis
    using assms by (auto simp: generateHashchain_Inr Let_def)
qed

lemma generateHashchain_length_hc:
  assumes "generateHashchain H rnd len so = Inr d"
  shows "length_hc d = int (length (fullChain d))"
proof -
  have "0 < len"
    using generateHashchain_fullChain [OF assms] by simp
  then show ?thesis
    using assms by (auto simp: generateHashchain_Inr Let_def)
qed

lemma is_HashValue_truthy: "is_HashValue s \<Longrightarrow> truthy (Some s)"
  by (auto simp: is_HashValue_def truthy_def)

lemma is_HashValue_seedA: "is_HashValue seedA"
  by (simp add: is_HashValue_def seedA_def is_hex_char_def list_all_iff)

lemma truthy_seedA: "truthy (Some seedA)"
  by (simp add: truthy_def seedA_def)

lemma chainA: "iterates H0 seedA 3 = [seedA, H0 seedA, H0 (H0 seedA)]"
  by (simp add: iterates_def numeral_3_eq_3)

lemma funpow_H0: "(H0 ^^ j) s = replicate j CHR ''h'' @ s"
  by (induction j) (simp_all add: H0_def)

subsection \<open>The verification loops\<close>

lemma verify_loop_eq:
  "i \<le> n \<Longrightarrow> verify_loop H i n (cur, applied) = ((H ^^ nat (n - i)) cur, applied + nat (n - i))"
proof (induction H i n "(cur, applied)" arbitrary: cur applied rule: verify_loop.induct)
  case (1 H i n cur applied)
  show ?case
  proof (cases "i < n")
    case True
    have "nat (n - i) = Suc (nat (n - (i + 1)))" using True by simp
    then have "(H ^^ nat (n - i)) cur = (H ^^ nat (n - (i + 1))) (H cur)"
      and "applied + nat (n - i) = applied + 1 + nat (n - (i + 1))"
      by (simp_all add: funpow_swap1)
    moreover have "verify_loop H (i + 1) n (H cur, applied + 1)
        = ((H ^^ nat (n - (i + 1))) (H cur), applied + 1 + nat (n - (i + 1)))"
      by (rule 1(1) [OF True]) (use True in simp)
    ultimately show ?thesis using True by (subst verify_loop.simps) simp
  next
    case False
    then show ?thesis using 1(2) by (subst verify_loop.simps) simp
  qed
qed

lemma verify_loop_neg:
  "n \<le> i \<Longrightarrow> verify_loop H i n st = st"
proof -
  assume a: "n \<le> i"
  obtain c k where st: "st = (c, k)" by (cases st)
  show ?thesis unfolding st using a by (subst verify_loop.simps) simp
qed

text \<open>
  The search loop returns the count of the first application that produces the anchor; a
  count it returns is at least one more than the counter it started from, at most the bound,
  and the count of an application that does produce the anchor; and it returns \<open>null\<close>
  when no application within the bound produces the anchor.
\<close>

lemma hashes_loop_found:
  "1 \<le> m \<Longrightarrow> (H ^^ m) cur = anchor \<Longrightarrow> (\<forall>j. 1 \<le> j \<and> j < m \<longrightarrow> (H ^^ j) cur \<noteq> anchor) \<Longrightarrow>
   i + int m \<le> maxHashes \<Longrightarrow>
   hashes_loop H anchor i maxHashes cur = Some (i + int m)"
proof (induction m arbitrary: i cur)
  case 0
  then show ?case by simp
next
  case (Suc m)
  have lt: "i < maxHashes" using Suc.prems(4) by simp
  show ?case
  proof (cases "m = 0")
    case True
    then have "H cur = anchor" using Suc.prems(2) by simp
    then show ?thesis using lt True by (subst hashes_loop.simps) simp
  next
    case False
    have ne: "H cur \<noteq> anchor"
      using Suc.prems(3) [rule_format, of 1] False by simp
    have "hashes_loop H anchor (i + 1) maxHashes (H cur) = Some (i + 1 + int m)"
    proof (rule Suc.IH)
      show "1 \<le> m" using False by simp
      show "(H ^^ m) (H cur) = anchor" using Suc.prems(2) by (simp add: funpow_swap1)
      show "\<forall>j. 1 \<le> j \<and> j < m \<longrightarrow> (H ^^ j) (H cur) \<noteq> anchor"
      proof (intro allI impI)
        fix j assume "1 \<le> j \<and> j < m"
        then have "(H ^^ Suc j) cur \<noteq> anchor"
          using Suc.prems(3) [rule_format, of "Suc j"] by simp
        then show "(H ^^ j) (H cur) \<noteq> anchor" by (simp add: funpow_swap1)
      qed
      show "i + 1 + int m \<le> maxHashes" using Suc.prems(4) by simp
    qed
    then show ?thesis using lt ne by (subst hashes_loop.simps) simp
  qed
qed

lemma hashes_loop_Some_gt:
  "hashes_loop H anchor i maxHashes cur = Some r \<Longrightarrow> i < r \<and> r \<le> maxHashes"
proof (induction H anchor i maxHashes cur rule: hashes_loop.induct)
  case (1 H anchor i maxHashes cur)
  show ?case
  proof (cases "i < maxHashes")
    case False
    then show ?thesis using 1(2) by (subst (asm) hashes_loop.simps) simp
  next
    case True
    show ?thesis
    proof (cases "H cur = anchor")
      case hit: True
      then have "r = i + 1" using 1(2) True by (subst (asm) hashes_loop.simps) simp
      then show ?thesis using True by simp
    next
      case miss: False
      then have "hashes_loop H anchor (i + 1) maxHashes (H cur) = Some r"
        using 1(2) True by (subst (asm) hashes_loop.simps) simp
      then have "i + 1 < r \<and> r \<le> maxHashes" by (rule 1(1) [OF True miss])
      then show ?thesis by simp
    qed
  qed
qed

lemma hashes_loop_Some_hit:
  "hashes_loop H anchor i maxHashes cur = Some r \<Longrightarrow> (H ^^ nat (r - i)) cur = anchor"
proof (induction H anchor i maxHashes cur rule: hashes_loop.induct)
  case (1 H anchor i maxHashes cur)
  show ?case
  proof (cases "i < maxHashes")
    case False
    then show ?thesis using 1(2) by (subst (asm) hashes_loop.simps) simp
  next
    case True
    show ?thesis
    proof (cases "H cur = anchor")
      case hit: True
      then have "r = i + 1" using 1(2) True by (subst (asm) hashes_loop.simps) simp
      then show ?thesis using hit by simp
    next
      case miss: False
      then have rest: "hashes_loop H anchor (i + 1) maxHashes (H cur) = Some r"
        using 1(2) True by (subst (asm) hashes_loop.simps) simp
      then have "(H ^^ nat (r - (i + 1))) (H cur) = anchor" by (rule 1(1) [OF True miss])
      moreover have "i + 1 < r" using hashes_loop_Some_gt [OF rest] by simp
      then have "nat (r - i) = Suc (nat (r - (i + 1)))" by simp
      ultimately show ?thesis by (simp add: funpow_swap1)
    qed
  qed
qed

lemma hashes_loop_None:
  "(\<forall>j. 1 \<le> j \<and> int j \<le> maxHashes - i \<longrightarrow> (H ^^ j) cur \<noteq> anchor) \<Longrightarrow>
   hashes_loop H anchor i maxHashes cur = None"
proof (induction H anchor i maxHashes cur rule: hashes_loop.induct)
  case (1 H anchor i maxHashes cur)
  show ?case
  proof (cases "i < maxHashes")
    case False
    then show ?thesis by (subst hashes_loop.simps) simp
  next
    case True
    have miss: "H cur \<noteq> anchor" using 1(2) [rule_format, of 1] True by simp
    have "hashes_loop H anchor (i + 1) maxHashes (H cur) = None"
    proof (rule 1(1) [OF True miss], intro allI impI)
      fix j assume "1 \<le> j \<and> int j \<le> maxHashes - (i + 1)"
      then have "(H ^^ Suc j) cur \<noteq> anchor" using 1(2) [rule_format, of "Suc j"] by simp
      then show "(H ^^ j) (H cur) \<noteq> anchor" by (simp add: funpow_swap1)
    qed
    then show ?thesis using True miss by (subst hashes_loop.simps) simp
  qed
qed

subsection \<open>indexOf\<close>

lemma indexOf_from_notin: "x \<notin> set xs \<Longrightarrow> indexOf_from xs x i = - 1"
  by (induction xs arbitrary: i) auto

lemma indexOf_from_first:
  "j < length xs \<Longrightarrow> xs ! j = x \<Longrightarrow> (\<forall>m<j. xs ! m \<noteq> x) \<Longrightarrow> indexOf_from xs x i = i + int j"
proof (induction xs arbitrary: i j)
  case Nil
  then show ?case by simp
next
  case (Cons y ys)
  show ?case
  proof (cases j)
    case 0
    then show ?thesis using Cons.prems by simp
  next
    case (Suc j')
    have ne: "y \<noteq> x" using Cons.prems(3) Suc by auto
    have "indexOf_from ys x (i + 1) = i + 1 + int j'"
    proof (rule Cons.IH)
      show "j' < length ys" using Cons.prems(1) Suc by simp
      show "ys ! j' = x" using Cons.prems(2) Suc by simp
      show "\<forall>m<j'. ys ! m \<noteq> x" using Cons.prems(3) Suc by auto
    qed
    then show ?thesis using ne Suc by simp
  qed
qed

subsection \<open>Parameter checks\<close>

text \<open>
  The guard of \<open>generateHashchain\<close> and the four checks of \<open>validateHashchainParams\<close>,
  which reports errors and never throws.
\<close>

lemma generateHashchain_nonpositive:
  "len \<le> 0 \<Longrightarrow> generateHashchain H rnd len so = Inl LengthNotPositive"
  by (simp add: generateHashchain_def)

lemma validate_length_errors:
  "(''Length must be greater than 0'' \<in> set (errors (validateHashchainParams len so))) = (len \<le> 0)"
  "(''Length must be less than or equal to 10000'' \<in> set (errors (validateHashchainParams len so)))
     = (len > 10000)"
  by (simp_all add: validateHashchainParams_def Let_def)

lemma validate_seed_errors:
  "(''Seed must start with 0x'' \<in> set (errors (validateHashchainParams len so)))
     = (truthy so \<and> \<not> startsWith (the so) ''0x'')"
  "(''Seed must be 32 bytes (0x + 64 hex characters)'' \<in> set (errors (validateHashchainParams len so)))
     = (truthy so \<and> length (the so) \<noteq> 66)"
  by (simp_all add: validateHashchainParams_def Let_def)

lemma validate_isValid:
  "isValid (validateHashchainParams len so) =
     (0 < len \<and> len \<le> 10000 \<and> (truthy so \<longrightarrow> startsWith (the so) ''0x'' \<and> length (the so) = 66))"
  by (auto simp: validateHashchainParams_def Let_def)

section \<open>The claims\<close>

subsection \<open>Generation\<close>

text \<open>
  Claim C1. For every length \<open>len \<ge> 1\<close> and every well-formed 32-byte seed \<open>s\<close>,
  \<open>generateHashchain(len, s)\<close> returns a chain \<open>d\<close> whose \<open>fullChain\<close> has exactly \<open>len\<close>
  elements, with \<open>fullChain[0]\<close> the seed, \<open>fullChain[i] = H(fullChain[i-1])\<close> for every
  \<open>i\<close> from 1 to \<open>len - 1\<close>, and \<open>trustAnchor\<close> equal to \<open>fullChain[len-1]\<close>; the
  construction applies \<open>H\<close> exactly \<open>len - 1\<close> times, so the last element is never hashed.
\<close>

theorem generate_builds_chain:
  assumes "1 \<le> len" and "is_HashValue s"
  shows "\<exists>d. generateHashchain H rnd len (Some s) = Inr d
     \<and> seed d = s
     \<and> length (fullChain d) = nat len
     \<and> fullChain d ! 0 = s
     \<and> (\<forall>i. 1 \<le> i \<and> i < nat len \<longrightarrow> fullChain d ! i = H (fullChain d ! (i - 1)))
     \<and> trustAnchor d = Some (fullChain d ! (nat len - 1))
     \<and> hashchain_counted H s (nat len) = (fullChain d, nat len - 1)"
proof -
  let ?c = "iterates H s (nat len)"
  let ?d = "\<lparr> seed = s, trustAnchor = Some ((H ^^ (nat len - 1)) s),
              firstToken = (if len = 1 then None else Some ((H ^^ (nat len - 2)) s)),
              length_hc = len, nodes = ?c, fullChain = ?c \<rparr>"
  have g: "generateHashchain H rnd len (Some s) = Inr ?d"
    using assms by (simp add: generateHashchain_Inr is_HashValue_truthy Let_def)
  have pos: "0 < nat len" using assms(1) by simp
  have "seed ?d = s" by simp
  moreover have "length (fullChain ?d) = nat len" by simp
  moreover have "fullChain ?d ! 0 = s" using pos by (simp add: nth_iterates)
  moreover have "\<forall>i. 1 \<le> i \<and> i < nat len \<longrightarrow> fullChain ?d ! i = H (fullChain ?d ! (i - 1))"
    by (simp add: iterates_link)
  moreover have "trustAnchor ?d = Some (fullChain ?d ! (nat len - 1))"
    using pos by (simp add: nth_iterates)
  moreover have "hashchain_counted H s (nat len) = (fullChain ?d, nat len - 1)"
    by (simp add: hashchain_counted_eq)
  ultimately show ?thesis using g by blast
qed

theorem generate_builds_chain_witness:
  "(1::int) \<le> 3 \<and> is_HashValue seedA \<and>
   (\<exists>d. generateHashchain H0 ''r'' 3 (Some seedA) = Inr d
      \<and> length (fullChain d) = 3 \<and> fullChain d ! 0 = seedA
      \<and> fullChain d ! 1 = H0 (fullChain d ! 0) \<and> fullChain d ! 2 = H0 (fullChain d ! 1)
      \<and> trustAnchor d = Some (fullChain d ! 2)
      \<and> hashchain_counted H0 seedA 3 = (fullChain d, 2))"
proof -
  have h: "(1::int) \<le> 3" by simp
  obtain d where d: "generateHashchain H0 ''r'' 3 (Some seedA) = Inr d"
     "length (fullChain d) = nat 3" "fullChain d ! 0 = seedA"
     "\<forall>i. 1 \<le> i \<and> i < nat 3 \<longrightarrow> fullChain d ! i = H0 (fullChain d ! (i - 1))"
     "trustAnchor d = Some (fullChain d ! (nat 3 - 1))"
     "hashchain_counted H0 seedA (nat 3) = (fullChain d, nat 3 - 1)"
    using generate_builds_chain [OF h is_HashValue_seedA, of H0 "''r''"] by blast
  have "fullChain d ! 1 = H0 (fullChain d ! 0)" using d(4) by simp
  moreover have "fullChain d ! 2 = H0 (fullChain d ! 1)" using d(4) by simp
  ultimately show ?thesis using d(1,2,3,5,6) is_HashValue_seedA by auto
qed

text \<open>
  Claim C10. For length 1, \<open>generateHashchain\<close> does not fail: \<open>seed\<close>, \<open>trustAnchor\<close> and
  \<open>fullChain\<close> are the single chain element, while \<open>firstToken\<close> is read from index
  \<open>hashes.length - 2 = -1\<close>, outside the array, and is \<open>undefined\<close>. The single element is
  the supplied seed, or the random one when the seed is omitted or empty.
\<close>

theorem generate_length_one:
  "generateHashchain H rnd 1 so =
     (let s = (if truthy so then the so else rnd) in
      Inr \<lparr> seed = s, trustAnchor = Some s, firstToken = None,
             length_hc = 1, nodes = [s], fullChain = [s] \<rparr>)
   \<and> int (length (hashchain H (if truthy so then the so else rnd) 1)) - 2 = - 1
   \<and> js_index (hashchain H (if truthy so then the so else rnd) 1) (- 1) = None"
  by (simp add: generateHashchain_Inr Let_def iterates_def hashchain_eq js_index_def)

theorem generate_length_one_witness:
  "generateHashchain H0 ''r'' 1 (Some seedA) =
      Inr \<lparr> seed = seedA, trustAnchor = Some seedA, firstToken = None,
             length_hc = 1, nodes = [seedA], fullChain = [seedA] \<rparr>
   \<and> js_index (hashchain H0 seedA 1) (- 1) = None"
  using generate_length_one [of H0 "''r''" "Some seedA"]
  by (simp add: truthy_def seedA_def Let_def)




subsection \<open>Positions and token numbers\<close>

text \<open>
  Claim C9. \<open>getTokensForPosition(p, L)\<close> returns 0 when \<open>p = L\<close> and \<open>L - p\<close> when
  \<open>1 \<le> p < L\<close>, and throws (the error 'Position must be between 1 and L') exactly when
  \<open>p < 1\<close> or \<open>p > L\<close>. In particular, wherever the position is in range,
  \<open>getTokensForPosition(1, L) = L - 1\<close>, \<open>getTokensForPosition(L - 1, L) = 1\<close> and
  \<open>getTokensForPosition(L, L) = 0\<close>.
\<close>

theorem tokensForPosition_cases:
  "getTokensForPosition p L =
     (if p < 1 \<or> p > L then Inl (PositionOutOfRange L)
      else if p = L then Inr 0 else Inr (L - p))
   \<and> (isl (getTokensForPosition p L) \<longleftrightarrow> p < 1 \<or> p > L)
   \<and> (1 \<le> L \<longrightarrow> getTokensForPosition 1 L = Inr (L - 1))
   \<and> (2 \<le> L \<longrightarrow> getTokensForPosition (L - 1) L = Inr 1)
   \<and> (1 \<le> L \<longrightarrow> getTokensForPosition L L = Inr 0)"
  by (simp add: getTokensForPosition_def)

theorem tokensForPosition_cases_witness:
  "getTokensForPosition 2 3 = Inr 1 \<and> getTokensForPosition 3 3 = Inr 0
   \<and> getTokensForPosition 1 3 = Inr 2
   \<and> getTokensForPosition 0 3 = Inl (PositionOutOfRange 3)
   \<and> getTokensForPosition 4 3 = Inl (PositionOutOfRange 3)"
  using tokensForPosition_cases [of 2 3] tokensForPosition_cases [of 3 3]
    tokensForPosition_cases [of 0 3] tokensForPosition_cases [of 4 3]
  by simp

text \<open>
  Claim C7. For every total length \<open>L \<ge> 2\<close>: for every token number \<open>t\<close> with
  \<open>1 \<le> t \<le> L - 1\<close>, the position of \<open>t\<close> has \<open>t\<close> tokens; for every position \<open>p\<close> with
  \<open>1 \<le> p < L\<close>, the token number of \<open>p\<close> has position \<open>p\<close>; and each of the two maps is a
  bijection of \<open>{1, \<dots>, L - 1}\<close>.
\<close>

theorem token_position_roundtrip:
  assumes "2 \<le> L"
  shows "(1 \<le> t \<and> t \<le> L - 1 \<longrightarrow>
            (case getPositionForToken t L of Inl e \<Rightarrow> Inl e | Inr p \<Rightarrow> getTokensForPosition p L) = Inr t)
       \<and> (1 \<le> p \<and> p < L \<longrightarrow>
            (case getTokensForPosition p L of Inl e \<Rightarrow> Inl e | Inr t \<Rightarrow> getPositionForToken t L) = Inr p)
       \<and> bij_betw (\<lambda>t. projr (getPositionForToken t L)) {1 .. L - 1} {1 .. L - 1}
       \<and> bij_betw (\<lambda>p. projr (getTokensForPosition p L)) {1 .. L - 1} {1 .. L - 1}"
proof -
  have a: "\<And>t. 1 \<le> t \<Longrightarrow> t \<le> L - 1 \<Longrightarrow> getPositionForToken t L = Inr (L - t)"
    by (simp add: getPositionForToken_def)
  have b: "\<And>p. 1 \<le> p \<Longrightarrow> p < L \<Longrightarrow> getTokensForPosition p L = Inr (L - p)"
    by (simp add: getTokensForPosition_def)
  have c: "bij_betw (\<lambda>t. L - t) {1 .. L - 1} {1 .. L - 1}"
    by (rule bij_betw_byWitness [where f' = "\<lambda>p. L - p"]) auto
  have d: "bij_betw (\<lambda>t. projr (getPositionForToken t L)) {1 .. L - 1} {1 .. L - 1}"
    using c by (rule bij_betw_cong [THEN iffD2, rotated]) (simp add: a)
  have e: "bij_betw (\<lambda>p. projr (getTokensForPosition p L)) {1 .. L - 1} {1 .. L - 1}"
    using c by (rule bij_betw_cong [THEN iffD2, rotated]) (simp add: b)
  show ?thesis using d e by (simp add: a b)
qed

theorem token_position_roundtrip_witness:
  "(case getPositionForToken 2 5 of Inl e \<Rightarrow> Inl e | Inr p \<Rightarrow> getTokensForPosition p 5) = Inr 2
   \<and> (case getTokensForPosition 3 5 of Inl e \<Rightarrow> Inl e | Inr t \<Rightarrow> getPositionForToken t 5) = Inr 3"
  using token_position_roundtrip [of 5 2 3] by simp

subsection \<open>Search\<close>

text \<open>
  Claim C8. \<open>searchHashInHashchain\<close> is a first-match scan. If the target does not occur
  in \<open>fullChain\<close>, the result is \<open>found = false\<close> with no position and no tokens, and
  nothing is thrown. If its first occurrence is at 0-based index \<open>i\<close>, the position is
  \<open>i + 1\<close> and the tokens are those of \<open>getTokensForPosition(i + 1, hashchain.length)\<close>,
  whose error, if any, is passed on; on a chain whose \<open>length\<close> field is the length of
  \<open>fullChain\<close>, as it is on every generated chain, that call succeeds and the result is
  \<open>found = true\<close> with this position and these tokens.
\<close>

theorem search_first_match:
  "(x \<notin> set (fullChain hc) \<longrightarrow>
      searchHashInHashchain hc x = Inr \<lparr> found = False, position = None, tokens = None \<rparr>)
   \<and> (i < length (fullChain hc) \<and> fullChain hc ! i = x \<and> (\<forall>j<i. fullChain hc ! j \<noteq> x) \<longrightarrow>
        searchHashInHashchain hc x =
          (case getTokensForPosition (int i + 1) (length_hc hc) of
             Inl e \<Rightarrow> Inl e
           | Inr t \<Rightarrow> Inr \<lparr> found = True, position = Some (int i + 1), tokens = Some t \<rparr>))
   \<and> (length_hc hc = int (length (fullChain hc)) \<and>
      i < length (fullChain hc) \<and> fullChain hc ! i = x \<and> (\<forall>j<i. fullChain hc ! j \<noteq> x) \<longrightarrow>
        (\<exists>t. getTokensForPosition (int i + 1) (int (length (fullChain hc))) = Inr t
           \<and> searchHashInHashchain hc x =
               Inr \<lparr> found = True, position = Some (int i + 1), tokens = Some t \<rparr>))"
proof -
  have a: "x \<notin> set (fullChain hc) \<longrightarrow>
      searchHashInHashchain hc x = Inr \<lparr> found = False, position = None, tokens = None \<rparr>"
    by (simp add: searchHashInHashchain_def indexOf_def indexOf_from_notin)
  have b: "searchHashInHashchain hc x =
          (case getTokensForPosition (int i + 1) (length_hc hc) of
             Inl e \<Rightarrow> Inl e
           | Inr t \<Rightarrow> Inr \<lparr> found = True, position = Some (int i + 1), tokens = Some t \<rparr>)"
    if "i < length (fullChain hc)" "fullChain hc ! i = x" "\<forall>j<i. fullChain hc ! j \<noteq> x"
  proof -
    have "indexOf (fullChain hc) x = 0 + int i"
      unfolding indexOf_def using that by (rule indexOf_from_first)
    then show ?thesis by (simp add: searchHashInHashchain_def Let_def)
  qed
  have c: "\<exists>t. getTokensForPosition (int i + 1) (int (length (fullChain hc))) = Inr t
           \<and> searchHashInHashchain hc x =
               Inr \<lparr> found = True, position = Some (int i + 1), tokens = Some t \<rparr>"
    if inv: "length_hc hc = int (length (fullChain hc))"
      and i: "i < length (fullChain hc)" "fullChain hc ! i = x" "\<forall>j<i. fullChain hc ! j \<noteq> x"
  proof -
    have "\<exists>t. getTokensForPosition (int i + 1) (int (length (fullChain hc))) = Inr t"
      using i(1) by (simp add: getTokensForPosition_def)
    then show ?thesis using b [OF i] inv by auto
  qed
  show ?thesis using a b c by blast
qed

theorem search_first_match_witness:
  "searchHashInHashchain
     \<lparr> seed = ''a'', trustAnchor = Some ''a'', firstToken = Some ''b'', length_hc = 3,
       nodes = [''a'', ''b'', ''a''], fullChain = [''a'', ''b'', ''a''] \<rparr> ''b''
     = Inr \<lparr> found = True, position = Some 2, tokens = Some 1 \<rparr>
   \<and> searchHashInHashchain
     \<lparr> seed = ''a'', trustAnchor = Some ''a'', firstToken = Some ''b'', length_hc = 3,
       nodes = [''a'', ''b'', ''a''], fullChain = [''a'', ''b'', ''a''] \<rparr> ''a''
     = Inr \<lparr> found = True, position = Some 1, tokens = Some 2 \<rparr>
   \<and> searchHashInHashchain
     \<lparr> seed = ''a'', trustAnchor = Some ''a'', firstToken = Some ''b'', length_hc = 3,
       nodes = [''a'', ''b'', ''a''], fullChain = [''a'', ''b'', ''a''] \<rparr> ''z''
     = Inr \<lparr> found = False, position = None, tokens = None \<rparr>"
  using search_first_match [of "''b''" "\<lparr> seed = ''a'', trustAnchor = Some ''a'', firstToken = Some ''b'', length_hc = 3,
       nodes = [''a'', ''b'', ''a''], fullChain = [''a'', ''b'', ''a''] \<rparr>" 1]
    search_first_match [of "''a''" "\<lparr> seed = ''a'', trustAnchor = Some ''a'', firstToken = Some ''b'', length_hc = 3,
       nodes = [''a'', ''b'', ''a''], fullChain = [''a'', ''b'', ''a''] \<rparr>" 0]
    search_first_match [of "''z''" "\<lparr> seed = ''a'', trustAnchor = Some ''a'', firstToken = Some ''b'', length_hc = 3,
       nodes = [''a'', ''b'', ''a''], fullChain = [''a'', ''b'', ''a''] \<rparr>" 0]
  by (simp add: getTokensForPosition_def)

subsection \<open>Verification\<close>

text \<open>
  Claim C2. For every \<open>testHash\<close>, \<open>anchor\<close> and \<open>n \<ge> 0\<close>, the loop of
  \<open>verifyHashchain(testHash, anchor, n)\<close> applies \<open>H\<close> exactly \<open>n\<close> times to \<open>testHash\<close>,
  and the function returns true if and only if the value so obtained equals \<open>anchor\<close>; with
  \<open>n = 0\<close> it compares \<open>testHash\<close> itself.
\<close>

theorem verify_applies_H:
  assumes "0 \<le> n"
  shows "verify_loop H 0 n (testHash, 0) = ((H ^^ nat n) testHash, nat n)
       \<and> verifyHashchain H testHash anchor n = Inr ((H ^^ nat n) testHash = anchor)
       \<and> verifyHashchain H testHash anchor 0 = Inr (testHash = anchor)"
  using assms verify_loop_eq [of 0 n H testHash 0] verify_loop_eq [of 0 0 H testHash 0]
  by (simp add: verifyHashchain_def)

theorem verify_applies_H_witness:
  "(0::int) \<le> 2 \<and> verify_loop H0 0 2 (''ab'', 0) = (''hhab'', 2)
   \<and> verifyHashchain H0 ''ab'' ''hhab'' 2 = Inr True
   \<and> verifyHashchain H0 ''ab'' ''hab'' 2 = Inr False"
  using verify_applies_H [of 2 H0 "''ab''" "''hhab''"] verify_applies_H [of 2 H0 "''ab''" "''hab''"]
  by (simp add: H0_def numeral_2_eq_2)

text \<open>
  Claim C6, as stated: for a negative \<open>numberOfHashes\<close>, \<open>verifyHashchain\<close> fails instead of
  returning a boolean. It does not: the function has no check of its arguments, the loop
  body is never entered, and the result is the comparison of the two arguments.
\<close>

theorem verify_negative_counterexample:
  "verifyHashchain H0 seedA seedA (- 1) = Inr True"
  by (simp add: verifyHashchain_def verify_loop_neg)

text \<open>
  Claim C6, amended. For every \<open>testHash\<close>, \<open>anchor\<close> and negative \<open>n\<close>,
  \<open>verifyHashchain(testHash, anchor, n)\<close> does not fail: it applies \<open>H\<close> zero times and
  returns whether \<open>testHash\<close> equals \<open>anchor\<close>.
\<close>

theorem verify_negative:
  assumes "n < 0"
  shows "verifyHashchain H testHash anchor n = Inr (testHash = anchor)
     \<and> verify_loop H 0 n (testHash, 0) = (testHash, 0)"
  using assms by (simp add: verifyHashchain_def verify_loop_neg)

theorem verify_negative_witness:
  "(- 5 :: int) < 0 \<and> verifyHashchain H0 ''ab'' ''ab'' (- 5) = Inr True
     \<and> verifyHashchain H0 ''ab'' ''hab'' (- 5) = Inr False"
  using verify_negative [of "- 5" H0 "''ab''" "''ab''"] verify_negative [of "- 5" H0 "''ab''" "''hab''"]
  by simp

text \<open>
  Claim C3, as stated: on a chain generated with length \<open>L\<close>, for every \<open>1 \<le> k \<le> L\<close>,
  \<open>calculateHashesNeeded(chain[k-1], chain[L-1])\<close> returns \<open>L - k\<close>, and so 0 for \<open>k = L\<close>.
  The loop hashes before it compares and returns \<open>i + 1\<close>, so it never returns 0: on the
  chain of length 1 the anchor is not found from itself.
\<close>

theorem hashesNeeded_anchor_counterexample:
  "fullChain (projr (generateHashchain H0 ''r'' 1 (Some seedA))) = [seedA]
   \<and> calculateHashesNeeded H0 ([seedA] ! nat (1 - 1)) ([seedA] ! nat (1 - 1)) None = None"
proof -
  have "\<forall>j. 1 \<le> j \<and> int j \<le> 1000 - 0 \<longrightarrow> (H0 ^^ j) seedA \<noteq> seedA"
    by (simp add: funpow_H0)
  then have "hashes_loop H0 seedA 0 1000 seedA = None"
    by (rule hashes_loop_None)
  then show ?thesis
    by (simp add: calculateHashesNeeded_def generateHashchain_Inr Let_def iterates_def truthy_seedA)
qed

text \<open>
  Claim C3, amended. On a chain generated with length \<open>L\<close>, for every \<open>k\<close> with
  \<open>1 \<le> k \<le> L\<close>, \<open>verifyHashchain(chain[k-1], chain[L-1], L - k)\<close> returns true. For
  \<open>k < L\<close>, when the values of the chain are pairwise distinct (no collision of \<open>H\<close> along
  the chain) and \<open>L - k\<close> is within the bound \<open>maxHashes\<close> (1000 when omitted),
  \<open>calculateHashesNeeded(chain[k-1], chain[L-1], maxHashes)\<close> returns \<open>L - k\<close>. For
  \<open>k = L\<close>, \<open>calculateHashesNeeded(chain[L-1], chain[L-1], maxHashes)\<close> does not return 0:
  its result is either \<open>null\<close> or a count \<open>r\<close> with \<open>1 \<le> r \<le> maxHashes\<close> such that \<open>r\<close>
  applications of \<open>H\<close> lead from the anchor back to the anchor.
\<close>

theorem verify_generated_chain:
  assumes "generateHashchain H rnd L so = Inr d" and "1 \<le> k" and "k \<le> L"
  shows "verifyHashchain H (fullChain d ! nat (k - 1)) (fullChain d ! nat (L - 1)) (L - k) = Inr True
     \<and> (k < L \<and> distinct (fullChain d) \<and> L - k \<le> (case mo of None \<Rightarrow> 1000 | Some m \<Rightarrow> m) \<longrightarrow>
          calculateHashesNeeded H (fullChain d ! nat (k - 1)) (fullChain d ! nat (L - 1)) mo
            = Some (L - k))
     \<and> calculateHashesNeeded H (fullChain d ! nat (L - 1)) (fullChain d ! nat (L - 1)) mo \<noteq> Some 0
     \<and> (case calculateHashesNeeded H (fullChain d ! nat (L - 1)) (fullChain d ! nat (L - 1)) mo of
          None \<Rightarrow> True
        | Some r \<Rightarrow> 1 \<le> r \<and> r \<le> (case mo of None \<Rightarrow> 1000 | Some m \<Rightarrow> m)
                    \<and> (H ^^ nat r) (fullChain d ! nat (L - 1)) = fullChain d ! nat (L - 1))"
proof -
  define s where "s = (if truthy so then the so else rnd)"
  define c where "c = iterates H s (nat L)"
  define a where "a = nat (k - 1)"
  define m where "m = nat (L - k)"
  have fc: "fullChain d = c" and pos: "0 < L"
    using generateHashchain_fullChain [OF assms(1)] by (simp_all add: c_def s_def)
  have idx: "a + m = nat (L - 1)" "a + m < nat L" "int m = L - k"
    using assms(2,3) by (simp_all add: a_def m_def)
  have reach: "(H ^^ m) (c ! a) = c ! nat (L - 1)"
    using iterates_funpow [of a m "nat L" H s] idx by (simp add: c_def)
  have v: "verifyHashchain H (c ! a) (c ! nat (L - 1)) (L - k) = Inr True"
    using verify_loop_eq [of 0 "L - k" H "c ! a" 0] assms(3) reach
    by (simp add: verifyHashchain_def m_def)
  have h: "calculateHashesNeeded H (c ! a) (c ! nat (L - 1)) mo = Some (L - k)"
    if lt: "k < L" and dist: "distinct c"
      and bound: "L - k \<le> (case mo of None \<Rightarrow> 1000 | Some m \<Rightarrow> m)"
  proof -
    have early: "\<forall>j. 1 \<le> j \<and> j < m \<longrightarrow> (H ^^ j) (c ! a) \<noteq> c ! nat (L - 1)"
    proof (intro allI impI)
      fix j assume j: "1 \<le> j \<and> j < m"
      then have lt': "a + j < nat L" and ne: "a + j \<noteq> nat (L - 1)" using idx(1,2) by linarith+
      have "(H ^^ j) (c ! a) = c ! (a + j)"
        using iterates_funpow [of a j "nat L" H s] lt' by (simp add: c_def)
      moreover have "c ! (a + j) \<noteq> c ! nat (L - 1)"
        using dist lt' ne idx(1,2) by (simp add: nth_eq_iff_index_eq c_def)
      ultimately show "(H ^^ j) (c ! a) \<noteq> c ! nat (L - 1)" by simp
    qed
    have "1 \<le> m" using lt by (simp add: m_def)
    then have "hashes_loop H (c ! nat (L - 1)) 0 (case mo of None \<Rightarrow> 1000 | Some m \<Rightarrow> m) (c ! a)
        = Some (0 + int m)"
      using reach early bound idx(3) by (intro hashes_loop_found) simp_all
    then show ?thesis by (simp add: calculateHashesNeeded_def idx(3))
  qed
  have z: "calculateHashesNeeded H (c ! nat (L - 1)) (c ! nat (L - 1)) mo \<noteq> Some 0"
    using hashes_loop_Some_gt [of H _ 0 _ _ 0] by (auto simp: calculateHashesNeeded_def)
  have w: "case calculateHashesNeeded H (c ! nat (L - 1)) (c ! nat (L - 1)) mo of
          None \<Rightarrow> True
        | Some r \<Rightarrow> 1 \<le> r \<and> r \<le> (case mo of None \<Rightarrow> 1000 | Some m \<Rightarrow> m)
                    \<and> (H ^^ nat r) (c ! nat (L - 1)) = c ! nat (L - 1)"
  proof (cases "calculateHashesNeeded H (c ! nat (L - 1)) (c ! nat (L - 1)) mo")
    case None
    then show ?thesis by simp
  next
    case (Some r)
    then have run: "hashes_loop H (c ! nat (L - 1)) 0 (case mo of None \<Rightarrow> 1000 | Some m \<Rightarrow> m)
        (c ! nat (L - 1)) = Some r"
      by (simp add: calculateHashesNeeded_def)
    have "0 < r \<and> r \<le> (case mo of None \<Rightarrow> 1000 | Some m \<Rightarrow> m)"
      by (rule hashes_loop_Some_gt [OF run])
    moreover have "(H ^^ nat (r - 0)) (c ! nat (L - 1)) = c ! nat (L - 1)"
      by (rule hashes_loop_Some_hit [OF run])
    ultimately show ?thesis using Some by simp
  qed
  show ?thesis unfolding fc using v h z w by (simp add: a_def)
qed

theorem verify_generated_chain_witness:
  "generateHashchain H0 ''r'' 3 (Some seedA) =
     Inr \<lparr> seed = seedA, trustAnchor = Some (H0 (H0 seedA)), firstToken = Some (H0 seedA),
            length_hc = 3, nodes = [seedA, H0 seedA, H0 (H0 seedA)],
            fullChain = [seedA, H0 seedA, H0 (H0 seedA)] \<rparr>
   \<and> distinct [seedA, H0 seedA, H0 (H0 seedA)]
   \<and> verifyHashchain H0 seedA (H0 (H0 seedA)) 2 = Inr True
   \<and> calculateHashesNeeded H0 seedA (H0 (H0 seedA)) None = Some 2
   \<and> verifyHashchain H0 (H0 seedA) (H0 (H0 seedA)) 1 = Inr True
   \<and> calculateHashesNeeded H0 (H0 seedA) (H0 (H0 seedA)) (Some 10) = Some 1
   \<and> verifyHashchain H0 (H0 (H0 seedA)) (H0 (H0 seedA)) 0 = Inr True
   \<and> calculateHashesNeeded H0 (H0 (H0 seedA)) (H0 (H0 seedA)) (Some 10) \<noteq> Some 0"
proof -
  let ?d = "\<lparr> seed = seedA, trustAnchor = Some (H0 (H0 seedA)), firstToken = Some (H0 seedA),
            length_hc = 3, nodes = [seedA, H0 seedA, H0 (H0 seedA)],
            fullChain = [seedA, H0 seedA, H0 (H0 seedA)] \<rparr>"
  have g: "generateHashchain H0 ''r'' 3 (Some seedA) = Inr ?d"
    by (simp add: generateHashchain_Inr Let_def chainA truthy_seedA numeral_2_eq_2)
  have dist: "distinct [seedA, H0 seedA, H0 (H0 seedA)]"
    by (simp add: H0_def seedA_def)
  show ?thesis
    using g dist verify_generated_chain [OF g, of 1 None]
      verify_generated_chain [OF g, of 2 "Some 10"]
      verify_generated_chain [OF g, of 3 "Some 10"]
    by simp
qed

end
